theory Spec2Isabelle
  imports Complex_Main
begin

section \<open>Text to bits (app.js, utility functions)\<close>

text \<open>
  A JavaScript string is a sequence of UTF-16 code units; a code unit is modelled as a
  natural number below 65536. The bit strings the program produces are modelled as HOL
  strings of the characters 0 and 1.
\<close>

type_synonym jsstring = "nat list"

definition is_high_surrogate :: "nat \<Rightarrow> bool" where
  "is_high_surrogate u = (55296 \<le> u \<and> u \<le> 56319)"

definition is_low_surrogate :: "nat \<Rightarrow> bool" where
  "is_low_surrogate u = (56320 \<le> u \<and> u \<le> 57343)"

text \<open>
  \<^verbatim>\<open>Array.from(str)\<close> iterates a string by code points: a high surrogate followed by
  a low surrogate is one element of two code units, every other code unit is an element
  of its own.
\<close>

fun Array_from :: "jsstring \<Rightarrow> jsstring list" where
  "Array_from [] = []"
| "Array_from [u] = [[u]]"
| "Array_from (u # v # us) =
     (if is_high_surrogate u \<and> is_low_surrogate v then [u, v] # Array_from us
      else [u] # Array_from (v # us))"

text \<open>\<^verbatim>\<open>Number.prototype.toString(2)\<close> on a non-negative integer.\<close>

definition digit :: "nat \<Rightarrow> char" where
  "digit d = (if d = 0 then CHR ''0'' else CHR ''1'')"

fun toString2 :: "nat \<Rightarrow> string" where
  "toString2 n = (if n < 2 then [digit n] else toString2 (n div 2) @ [digit (n mod 2)])"

declare toString2.simps [simp del]

text \<open>\<^verbatim>\<open>String.prototype.padStart(n, c)\<close> with a one-character filler: pads, never cuts.\<close>

definition padStart :: "nat \<Rightarrow> char \<Rightarrow> string \<Rightarrow> string" where
  "padStart n c s = replicate (n - length s) c @ s"

text \<open>
  \<^verbatim>\<open>char.charCodeAt(0)\<close> is the first code unit, and NaN on the empty string, whose
  \<^verbatim>\<open>toString(2)\<close> is the text NaN.
\<close>

definition charToBinary :: "jsstring \<Rightarrow> string" where
  "charToBinary ch =
     (case ch of
        [] \<Rightarrow> padStart 8 (CHR ''0'') ''NaN''
      | code # _ \<Rightarrow> padStart 8 (CHR ''0'') (toString2 code))"

definition stringToBinary :: "jsstring \<Rightarrow> string" where
  "stringToBinary str = concat (map charToBinary (Array_from str))"

subsection \<open>The reading of a bit string the round-trip law refers to\<close>

text \<open>
  The specification's words: the 8-bit binary representation of a code point, most
  significant bit first, zero-padded; and decoding by standard 8-bit grouping.
\<close>

definition bit_char :: "bool \<Rightarrow> char" where
  "bit_char b = (if b then CHR ''1'' else CHR ''0'')"

definition byte_msb_first :: "nat \<Rightarrow> string" where
  "byte_msb_first n = map (\<lambda>k. bit_char (odd (n div 2 ^ k))) [7, 6, 5, 4, 3, 2, 1, 0]"

definition binary_value :: "string \<Rightarrow> nat" where
  "binary_value s = foldl (\<lambda>a c. 2 * a + (if c = CHR ''1'' then 1 else 0)) 0 s"

fun decode_groups :: "nat \<Rightarrow> string \<Rightarrow> nat list" where
  "decode_groups 0 s = []"
| "decode_groups (Suc k) s = binary_value (take 8 s) # decode_groups k (drop 8 s)"

definition decode :: "string \<Rightarrow> nat list" where
  "decode s = decode_groups (length s div 8) s"

definition ascii :: "jsstring \<Rightarrow> bool" where
  "ascii str = list_all (\<lambda>u. u < 128) str"

section \<open>The signal waveform (app.js, drawing functions)\<close>

text \<open>
  The drawing functions issue \<^verbatim>\<open>moveTo\<close> and \<^verbatim>\<open>lineTo\<close> calls on the canvas
  context. The context's current path is modelled as the list of these calls in the order
  they are made; a drawing function takes the path and returns it extended. Coordinates
  are JavaScript numbers; they are modelled as rationals (for the zoom factors the
  program can reach, 0.5 to 2 in steps of 0.25, every coordinate is an integer).
\<close>

datatype cmd = MoveTo rat rat | LineTo rat rat

type_synonym ctx = "cmd list"

definition moveTo :: "ctx \<Rightarrow> rat \<Rightarrow> rat \<Rightarrow> ctx" where
  "moveTo c x y = c @ [MoveTo x y]"

definition lineTo :: "ctx \<Rightarrow> rat \<Rightarrow> rat \<Rightarrow> ctx" where
  "lineTo c x y = c @ [LineTo x y]"

definition drawNRZ :: "ctx \<Rightarrow> rat \<Rightarrow> rat \<Rightarrow> char \<Rightarrow> rat \<Rightarrow> rat \<Rightarrow> rat \<Rightarrow> nat \<Rightarrow> ctx" where
  "drawNRZ c x width b high low lastY index =
     (let y = (if b = CHR ''1'' then high else low);
          c = (if index = 0 then moveTo c x y
               else if lastY \<noteq> y then lineTo (lineTo c x lastY) x y
               else c)
      in lineTo c (x + width) y)"

definition drawRZ ::
  "ctx \<Rightarrow> rat \<Rightarrow> rat \<Rightarrow> char \<Rightarrow> rat \<Rightarrow> rat \<Rightarrow> rat \<Rightarrow> rat \<Rightarrow> nat \<Rightarrow> ctx" where
  "drawRZ c x width b high zero low lastY index =
     (if b = CHR ''1'' then
        (let c = (if index = 0 then moveTo c x high
                  else (let c = lineTo c x lastY
                        in if lastY \<noteq> high then lineTo c x high else c));
             c = lineTo c (x + width / 2) high;
             c = lineTo c (x + width / 2) zero
         in lineTo c (x + width) zero)
      else
        (let c = (if index = 0 then moveTo c x low
                  else (let c = lineTo c x lastY
                        in if lastY \<noteq> low then lineTo c x low else c));
             c = lineTo c (x + width / 2) low;
             c = lineTo c (x + width / 2) zero
         in lineTo c (x + width) zero))"

definition drawManchester ::
  "ctx \<Rightarrow> rat \<Rightarrow> rat \<Rightarrow> char \<Rightarrow> rat \<Rightarrow> rat \<Rightarrow> rat \<Rightarrow> nat \<Rightarrow> ctx" where
  "drawManchester c x width b high low lastY index =
     (if b = CHR ''1'' then
        (let c = (if index = 0 then moveTo c x low
                  else if lastY \<noteq> low then lineTo (lineTo c x lastY) x low
                  else c);
             c = lineTo c (x + width / 2) low;
             c = lineTo c (x + width / 2) high
         in lineTo c (x + width) high)
      else
        (let c = (if index = 0 then moveTo c x high
                  else if lastY \<noteq> high then lineTo (lineTo c x lastY) x high
                  else c);
             c = lineTo c (x + width / 2) high;
             c = lineTo c (x + width / 2) low
         in lineTo c (x + width) low))"

text \<open>
  \<^verbatim>\<open>drawAMI\<close> and \<^verbatim>\<open>drawCMI\<close> return the object \<^verbatim>\<open>{ lastY, polarity }\<close>; the model
  returns the extended path with it.
\<close>

definition drawAMI ::
  "ctx \<Rightarrow> rat \<Rightarrow> rat \<Rightarrow> char \<Rightarrow> rat \<Rightarrow> rat \<Rightarrow> rat \<Rightarrow> rat \<Rightarrow> nat \<Rightarrow> int \<Rightarrow> ctx \<times> rat \<times> int" where
  "drawAMI c x width b high zero low lastY index polarity =
     (let (newY, newPolarity) =
            (if b = CHR ''0'' then (zero, polarity)
             else (if polarity = 1 then high else low, - polarity));
          c = (if index = 0 then moveTo c x newY
               else (let c = lineTo c x lastY
                     in if lastY \<noteq> newY then lineTo c x newY else c));
          c = lineTo c (x + width) newY
      in (c, newY, newPolarity))"

definition drawCMI ::
  "ctx \<Rightarrow> rat \<Rightarrow> rat \<Rightarrow> char \<Rightarrow> rat \<Rightarrow> rat \<Rightarrow> rat \<Rightarrow> nat \<Rightarrow> int \<Rightarrow> ctx \<times> rat \<times> int" where
  "drawCMI c x width b high low lastY index polarity =
     (if b = CHR ''1'' then
        (let y = (if polarity = 1 then high else low);
             newPolarity = - polarity;
             c = (if index = 0 then moveTo c x y
                  else (let c = lineTo c x lastY
                        in if lastY \<noteq> y then lineTo c x y else c));
             c = lineTo c (x + width) y
         in (c, y, newPolarity))
      else
        (let c = (if index = 0 then moveTo c x low
                  else (let c = lineTo c x lastY
                        in if lastY \<noteq> low then lineTo c x low else c));
             c = lineTo c (x + width / 2) low;
             c = lineTo c (x + width / 2) high;
             c = lineTo c (x + width) high
         in (c, high, polarity)))"

subsection \<open>drawWaveform: configuration and the loop over the bits\<close>

text \<open>
  The global \<^verbatim>\<open>currentZoom\<close> is a parameter. Only the signal path is modelled (from
  \<^verbatim>\<open>ctx.beginPath()\<close> before the loop to \<^verbatim>\<open>ctx.stroke()\<close> after it); the grid, the
  labels and the separators are paths of their own.
\<close>

definition bitWidth :: "rat \<Rightarrow> rat" where
  "bitWidth currentZoom = 40 * currentZoom"

definition cellSize :: "rat \<Rightarrow> rat" where
  "cellSize currentZoom = 20 * currentZoom"

definition padding :: rat where
  "padding = 80"

definition topPadding :: rat where
  "topPadding = 60"

definition voltageHigh :: "rat \<Rightarrow> rat" where
  "voltageHigh currentZoom = topPadding + cellSize currentZoom"

definition voltageZero :: "rat \<Rightarrow> rat" where
  "voltageZero currentZoom = topPadding + cellSize currentZoom * 3"

definition voltageLow :: "rat \<Rightarrow> rat" where
  "voltageLow currentZoom = topPadding + cellSize currentZoom * 5"

record signal_state =
  ctx :: ctx
  lastY :: rat
  amiPolarity :: int
  cmiPolarity :: int

text \<open>
  One iteration of the loop: the \<^verbatim>\<open>switch\<close> on the encoding has no default case, so
  an encoding that matches no case leaves the state as it is.
\<close>

definition loop_body :: "rat \<Rightarrow> string \<Rightarrow> nat \<Rightarrow> char \<Rightarrow> signal_state \<Rightarrow> signal_state" where
  "loop_body zoom encoding i b s =
     (let x = padding + of_nat i * bitWidth zoom in
      if encoding = ''nrz'' then
        s\<lparr>ctx := drawNRZ (ctx s) x (bitWidth zoom) b (voltageHigh zoom) (voltageZero zoom)
                  (lastY s) i,
          lastY := (if b = CHR ''1'' then voltageHigh zoom else voltageZero zoom)\<rparr>
      else if encoding = ''rz'' then
        s\<lparr>ctx := drawRZ (ctx s) x (bitWidth zoom) b (voltageHigh zoom) (voltageZero zoom)
                  (voltageLow zoom) (lastY s) i,
          lastY := voltageZero zoom\<rparr>
      else if encoding = ''manchester'' then
        s\<lparr>ctx := drawManchester (ctx s) x (bitWidth zoom) b (voltageHigh zoom)
                  (voltageLow zoom) (lastY s) i,
          lastY := (if b = CHR ''1'' then voltageHigh zoom else voltageLow zoom)\<rparr>
      else if encoding = ''ami'' then
        (case drawAMI (ctx s) x (bitWidth zoom) b (voltageHigh zoom) (voltageZero zoom)
                (voltageLow zoom) (lastY s) i (amiPolarity s) of
           (c, newY, newPolarity) \<Rightarrow> s\<lparr>ctx := c, lastY := newY, amiPolarity := newPolarity\<rparr>)
      else if encoding = ''cmi'' then
        (case drawCMI (ctx s) x (bitWidth zoom) b (voltageHigh zoom) (voltageZero zoom)
                (lastY s) i (cmiPolarity s) of
           (c, newY, newPolarity) \<Rightarrow> s\<lparr>ctx := c, lastY := newY, cmiPolarity := newPolarity\<rparr>)
      else s)"

text \<open>
  \<^verbatim>\<open>for (let i = 0; i < binary.length; i++)\<close> with \<^verbatim>\<open>bit = binary[i]\<close>: the recursion
  runs over the characters from index \<open>i\<close> on.
\<close>

fun bits_loop :: "rat \<Rightarrow> string \<Rightarrow> nat \<Rightarrow> string \<Rightarrow> signal_state \<Rightarrow> signal_state" where
  "bits_loop zoom encoding i [] s = s"
| "bits_loop zoom encoding i (b # rest) s =
     bits_loop zoom encoding (Suc i) rest (loop_body zoom encoding i b s)"

definition initial_state :: "rat \<Rightarrow> signal_state" where
  "initial_state zoom =
     \<lparr>ctx = [], lastY = voltageZero zoom, amiPolarity = 1, cmiPolarity = - 1\<rparr>"

text \<open>
  The source has no \<^verbatim>\<open>throw\<close> and no early return: for every string and every
  encoding the call returns and the path built by the loop is stroked. The result type
  makes this visible; the two error kinds are the ones the specification names.
\<close>

datatype error = InvalidInput | UnsupportedScheme

definition drawWaveform :: "rat \<Rightarrow> string \<Rightarrow> string \<Rightarrow> error + ctx" where
  "drawWaveform zoom binary encoding = Inr (ctx (bits_loop zoom encoding 0 binary (initial_state zoom)))"

definition signal_path :: "rat \<Rightarrow> string \<Rightarrow> string \<Rightarrow> ctx" where
  "signal_path zoom binary encoding =
     (case drawWaveform zoom binary encoding of Inl e \<Rightarrow> [] | Inr c \<Rightarrow> c)"

section \<open>What a path draws\<close>

text \<open>
  The canvas semantics of a path: \<^verbatim>\<open>moveTo\<close> lifts the pen and puts it down at the
  point, \<^verbatim>\<open>lineTo\<close> draws a straight segment from the pen to the point (on a path
  with no point yet it only sets the pen). \<open>segments\<close> lists the segments in drawing
  order, \<open>drawn\<close> those of them that have an extent, \<open>strokes\<close> those that advance
  in time (the x coordinate changes).
\<close>

type_synonym point = "rat \<times> rat"

type_synonym seg = "point \<times> point"

fun segments :: "point option \<Rightarrow> ctx \<Rightarrow> seg list" where
  "segments pen [] = []"
| "segments pen (MoveTo x y # cs) = segments (Some (x, y)) cs"
| "segments None (LineTo x y # cs) = segments (Some (x, y)) cs"
| "segments (Some p) (LineTo x y # cs) = (p, (x, y)) # segments (Some (x, y)) cs"

fun pen_after :: "point option \<Rightarrow> ctx \<Rightarrow> point option" where
  "pen_after pen [] = pen"
| "pen_after pen (MoveTo x y # cs) = pen_after (Some (x, y)) cs"
| "pen_after pen (LineTo x y # cs) = pen_after (Some (x, y)) cs"

definition has_extent :: "seg \<Rightarrow> bool" where
  "has_extent s = (fst s \<noteq> snd s)"

definition advances :: "seg \<Rightarrow> bool" where
  "advances s = (fst (fst s) \<noteq> fst (snd s))"

definition drawn :: "point option \<Rightarrow> ctx \<Rightarrow> seg list" where
  "drawn pen c = filter has_extent (segments pen c)"

definition strokes :: "ctx \<Rightarrow> seg list" where
  "strokes c = filter advances (segments None c)"

text \<open>The flag of a vertex: does it start a new subpath (pen up)?\<close>

fun startsNewSegment :: "cmd \<Rightarrow> bool" where
  "startsNewSegment (MoveTo x y) = True"
| "startsNewSegment (LineTo x y) = False"

section \<open>The encoding rules in the specification's terms\<close>

text \<open>
  Three symbolic levels, and a waveform as, for every bit, the list of its flat pieces:
  a piece \<open>(a, b, l)\<close> holds level \<open>l\<close> from position \<open>a\<close> to position \<open>b\<close> of the
  bit, in bit-width units relative to the start of the bit.
\<close>

datatype level = HIGH | ZERO | LOW

type_synonym piece = "rat \<times> rat \<times> level"

definition nrz_rule :: "bool \<Rightarrow> piece list" where
  "nrz_rule b = [(0, 1, if b then HIGH else ZERO)]"

definition rz_rule :: "bool \<Rightarrow> piece list" where
  "rz_rule b = [(0, 1 / 2, if b then HIGH else LOW), (1 / 2, 1, ZERO)]"

definition manchester_rule :: "bool \<Rightarrow> piece list" where
  "manchester_rule b =
     (if b then [(0, 1 / 2, LOW), (1 / 2, 1, HIGH)] else [(0, 1 / 2, HIGH), (1 / 2, 1, LOW)])"

text \<open>AMI and CMI carry a polarity: the rule gives the pieces and the next polarity.\<close>

definition ami_rule :: "int \<Rightarrow> bool \<Rightarrow> piece list \<times> int" where
  "ami_rule polarity b =
     (if b then ([(0, 1, if polarity = 1 then HIGH else LOW)], - polarity)
      else ([(0, 1, ZERO)], polarity))"

definition cmi_rule :: "int \<Rightarrow> bool \<Rightarrow> piece list \<times> int" where
  "cmi_rule polarity b =
     (if b then ([(0, 1, if polarity = 1 then HIGH else ZERO)], - polarity)
      else ([(0, 1 / 2, ZERO), (1 / 2, 1, HIGH)], polarity))"

datatype scheme = NRZ_L | RZ | Manchester | AMI | CMI

fun scheme_id :: "scheme \<Rightarrow> string" where
  "scheme_id NRZ_L = ''nrz''"
| "scheme_id RZ = ''rz''"
| "scheme_id Manchester = ''manchester''"
| "scheme_id AMI = ''ami''"
| "scheme_id CMI = ''cmi''"

fun rule :: "scheme \<Rightarrow> int \<Rightarrow> bool \<Rightarrow> piece list \<times> int" where
  "rule NRZ_L polarity b = (nrz_rule b, polarity)"
| "rule RZ polarity b = (rz_rule b, polarity)"
| "rule Manchester polarity b = (manchester_rule b, polarity)"
| "rule AMI polarity b = ami_rule polarity b"
| "rule CMI polarity b = cmi_rule polarity b"

fun waveform :: "scheme \<Rightarrow> int \<Rightarrow> bool list \<Rightarrow> piece list list" where
  "waveform sch polarity [] = []"
| "waveform sch polarity (b # bs) =
     fst (rule sch polarity b) # waveform sch (snd (rule sch polarity b)) bs"

fun initial_polarity :: "scheme \<Rightarrow> int" where
  "initial_polarity CMI = - 1"
| "initial_polarity sch = 1"

subsection \<open>Pieces on the canvas\<close>

definition volt :: "rat \<Rightarrow> level \<Rightarrow> rat" where
  "volt zoom l = (case l of HIGH \<Rightarrow> voltageHigh zoom | ZERO \<Rightarrow> voltageZero zoom | LOW \<Rightarrow> voltageLow zoom)"

definition bitX :: "rat \<Rightarrow> nat \<Rightarrow> rat" where
  "bitX zoom i = padding + of_nat i * bitWidth zoom"

definition place :: "rat \<Rightarrow> nat \<Rightarrow> piece \<Rightarrow> seg" where
  "place zoom i pc =
     (case pc of (a, b, l) \<Rightarrow>
        ((bitX zoom i + a * bitWidth zoom, volt zoom l),
         (bitX zoom i + b * bitWidth zoom, volt zoom l)))"

fun placed :: "rat \<Rightarrow> nat \<Rightarrow> piece list list \<Rightarrow> seg list" where
  "placed zoom i [] = []"
| "placed zoom i (ps # pss) = map (place zoom i) ps @ placed zoom (Suc i) pss"

text \<open>
  The connected line through a list of strokes: before each stroke a joining segment is
  drawn exactly when the pen is down somewhere else than at the start of the stroke.
\<close>

fun polyline :: "point option \<Rightarrow> seg list \<Rightarrow> seg list" where
  "polyline pen [] = []"
| "polyline pen (s # ss) =
     (case pen of None \<Rightarrow> [] | Some p \<Rightarrow> if p = fst s then [] else [(p, fst s)])
     @ s # polyline (Some (snd s)) ss"

section \<open>Auxiliary notions for the proofs\<close>

text \<open>
  \<^verbatim>\<open>String.prototype.codePointAt(0)\<close>: the code point a string starts with (a
  surrogate pair is one code point), undefined on the empty string.
\<close>

definition codePointAt0 :: "jsstring \<Rightarrow> nat option" where
  "codePointAt0 ch =
     (case ch of
        [] \<Rightarrow> None
      | [u] \<Rightarrow> Some u
      | u # v # _ \<Rightarrow>
          if is_high_surrogate u \<and> is_low_surrogate v
          then Some (65536 + (u - 55296) * 1024 + (v - 56320))
          else Some u)"

text \<open>
  The polarity a scheme reads, the pen position at the start of bit \<open>i\<close> of the loop,
  the pen position after a list of strokes, and a pen standing on the start of bit \<open>i\<close>.
\<close>

definition pol :: "scheme \<Rightarrow> signal_state \<Rightarrow> int" where
  "pol sch s = (if sch = CMI then cmiPolarity s else amiPolarity s)"

definition pen_at :: "rat \<Rightarrow> nat \<Rightarrow> signal_state \<Rightarrow> point option" where
  "pen_at z i s = (if i = 0 then None else Some (bitX z i, lastY s))"

fun pen_end :: "point option \<Rightarrow> seg list \<Rightarrow> point option" where
  "pen_end pen [] = pen"
| "pen_end pen (s # ss) = pen_end (Some (snd s)) ss"

definition pen_on :: "rat \<Rightarrow> nat \<Rightarrow> point option \<Rightarrow> bool" where
  "pen_on z i pen = (case pen of None \<Rightarrow> True | Some p \<Rightarrow> fst p = bitX z i)"

section \<open>Text to bits: lemmas\<close>

lemma Array_from_ascii: "ascii str \<Longrightarrow> Array_from str = map (\<lambda>u. [u]) str"
  by (induction str rule: Array_from.induct) (auto simp: ascii_def is_high_surrogate_def)

lemma padStart_step:
  "0 < k \<Longrightarrow> padStart (Suc k) (CHR ''0'') (toString2 n) =
     padStart k (CHR ''0'') (toString2 (n div 2)) @ [digit (n mod 2)]"
proof (cases "n < 2")
  case True
  assume "0 < k"
  then obtain j where "k = Suc j" by (cases k) auto
  with True show ?thesis
    by (simp add: padStart_def toString2.simps [of n] toString2.simps [of 0] digit_def
        replicate_append_same)
next
  case False
  then show ?thesis
    by (simp add: padStart_def toString2.simps [of n] Suc_diff_le)
qed

lemma padStart_one: "n < 2 \<Longrightarrow> padStart (Suc 0) (CHR ''0'') (toString2 n) = [digit n]"
  by (simp add: padStart_def toString2.simps [of n])

lemma digit_mod2: "digit (m mod 2) = bit_char (odd m)"
  by (auto simp: digit_def bit_char_def)

lemma digit_lt2: "m < 2 \<Longrightarrow> digit m = bit_char (odd m)"
  by (cases m) (auto simp: digit_def bit_char_def)

lemma byte_of_code:
  assumes "n < 256"
  shows "padStart 8 (CHR ''0'') (toString2 n) = byte_msb_first n"
proof -
  have e: "(8::nat) = Suc (Suc (Suc (Suc (Suc (Suc (Suc (Suc 0)))))))" by simp
  have small: "n div 128 < 2"
    using assms by simp
  show ?thesis
    unfolding e
    by (simp add: padStart_step padStart_one [OF small] digit_mod2 digit_lt2 [OF small]
        byte_msb_first_def div_mult2_eq [symmetric])
qed

lemma binary_value_snoc:
  "binary_value (s @ [c]) = 2 * binary_value s + (if c = CHR ''1'' then 1 else 0)"
  by (simp add: binary_value_def)

lemma binary_value_toString2: "binary_value (toString2 n) = n"
proof (induction n rule: toString2.induct)
  case (1 n)
  show ?case
  proof (cases "n < 2")
    case True
    then have "n = 0 \<or> n = 1" by auto
    then show ?thesis
      by (auto simp: toString2.simps [of 0] toString2.simps [of 1] toString2.simps [of "Suc 0"] binary_value_def digit_def)
  next
    case False
    have "binary_value (toString2 n) = 2 * (n div 2) + (if digit (n mod 2) = CHR ''1'' then 1 else 0)"
      using False 1 by (simp add: toString2.simps [of n] binary_value_snoc)
    also have "\<dots> = n"
      unfolding digit_def by (cases "n mod 2 = 0") (simp, presburger, simp, presburger)
    finally show ?thesis .
  qed
qed

lemma binary_value_zeros: "binary_value (replicate k (CHR ''0'') @ s) = binary_value s"
proof -
  have "foldl (\<lambda>a c. 2 * a + (if c = CHR ''1'' then 1 else 0)) (0::nat) (replicate k (CHR ''0'')) = 0"
    by (induction k) auto
  then show ?thesis by (simp add: binary_value_def)
qed

lemma binary_value_padStart: "binary_value (padStart k (CHR ''0'') (toString2 n)) = n"
  by (simp add: padStart_def binary_value_zeros binary_value_toString2)

lemma length_byte: "length (byte_msb_first n) = 8"
  by (simp add: byte_msb_first_def)

lemma binary_value_byte: "n < 256 \<Longrightarrow> binary_value (byte_msb_first n) = n"
  using binary_value_padStart [of 8 n] by (simp add: byte_of_code)

lemma stringToBinary_ascii:
  "ascii str \<Longrightarrow> stringToBinary str = concat (map byte_msb_first str)"
proof -
  assume a: "ascii str"
  then have "\<forall>u\<in>set str. charToBinary [u] = byte_msb_first u"
    by (auto simp: ascii_def list_all_iff charToBinary_def byte_of_code)
  then have "map charToBinary (map (\<lambda>u. [u]) str) = map byte_msb_first str"
    by simp
  with a show ?thesis by (simp only: stringToBinary_def Array_from_ascii)
qed

lemma length_concat_bytes: "length (concat (map byte_msb_first str)) = 8 * length str"
  by (induction str) (auto simp: length_byte)

lemma decode_groups_bytes:
  "ascii str \<Longrightarrow> decode_groups (length str) (concat (map byte_msb_first str)) = str"
  by (induction str) (auto simp: ascii_def length_byte binary_value_byte)

lemma toString2_length: "2 ^ k \<le> n \<Longrightarrow> k < length (toString2 n)"
proof (induction k arbitrary: n)
  case 0
  then show ?case by (simp add: toString2.simps [of n])
next
  case (Suc k)
  then have "2 ^ k \<le> n div 2" by simp
  then have "k < length (toString2 (n div 2))" by (rule Suc.IH)
  moreover have "\<not> n < 2"
  proof -
    have "(2::nat) \<le> 2 ^ Suc k" by (induction k) simp_all
    with Suc.prems show ?thesis by linarith
  qed
  ultimately show ?case by (simp add: toString2.simps [of n])
qed

section \<open>The signal path: lemmas\<close>

lemmas draw_defs = drawNRZ_def drawRZ_def drawManchester_def drawAMI_def drawCMI_def
  moveTo_def lineTo_def

lemma loop_body_ctx:
  "loop_body z e i b s =
     (loop_body z e i b (s\<lparr>ctx := []\<rparr>))\<lparr>ctx := ctx s @ ctx (loop_body z e i b (s\<lparr>ctx := []\<rparr>))\<rparr>"
  by (simp add: loop_body_def draw_defs Let_def)

lemma bits_loop_ctx:
  "ctx (bits_loop z e i bs s) = ctx s @ ctx (bits_loop z e i bs (s\<lparr>ctx := []\<rparr>))"
proof (induction bs arbitrary: i s)
  case Nil
  show ?case by simp
next
  case (Cons b bs)
  let ?s0 = "loop_body z e i b (s\<lparr>ctx := []\<rparr>)"
  have eq: "(loop_body z e i b s)\<lparr>ctx := []\<rparr> = ?s0\<lparr>ctx := []\<rparr>"
    by (subst loop_body_ctx) simp
  have c: "ctx (loop_body z e i b s) = ctx s @ ctx ?s0"
    by (subst loop_body_ctx) simp
  have "ctx (bits_loop z e i (b # bs) s)
      = ctx (loop_body z e i b s) @ ctx (bits_loop z e (Suc i) bs ((loop_body z e i b s)\<lparr>ctx := []\<rparr>))"
    using Cons.IH [of "Suc i" "loop_body z e i b s"] by simp
  also have "\<dots> = ctx s @ ctx ?s0 @ ctx (bits_loop z e (Suc i) bs (?s0\<lparr>ctx := []\<rparr>))"
    by (simp add: eq c)
  also have "\<dots> = ctx s @ ctx (bits_loop z e i (b # bs) (s\<lparr>ctx := []\<rparr>))"
    using Cons.IH [of "Suc i" ?s0] by simp
  finally show ?case .
qed

lemma segments_append:
  "segments pen (a @ b) = segments pen a @ segments (pen_after pen a) b"
  by (induction pen a rule: segments.induct) auto

lemma pen_after_append: "pen_after pen (a @ b) = pen_after (pen_after pen a) b"
  by (induction pen a rule: pen_after.induct) auto

lemma drawn_append: "drawn pen (a @ b) = drawn pen a @ drawn (pen_after pen a) b"
  by (simp add: drawn_def segments_append)

lemma bitX_Suc: "bitX z i + bitWidth z = bitX z (Suc i)"
  by (simp add: bitX_def algebra_simps)

lemma half_ne: "0 < z \<Longrightarrow> bitX z i + bitWidth z / 2 \<noteq> bitX z i"
  by (simp add: bitWidth_def)

lemma half_ne_Suc: "0 < z \<Longrightarrow> bitX z i + bitWidth z / 2 \<noteq> bitX z (Suc i)"
  by (simp add: bitX_def bitWidth_def algebra_simps)

lemma bitX_ne_Suc: "0 < z \<Longrightarrow> bitX z i \<noteq> bitX z (Suc i)"
  by (simp add: bitX_def bitWidth_def algebra_simps)

lemma volt_distinct:
  "0 < z \<Longrightarrow> voltageHigh z \<noteq> voltageZero z"
  "0 < z \<Longrightarrow> voltageHigh z \<noteq> voltageLow z"
  "0 < z \<Longrightarrow> voltageZero z \<noteq> voltageLow z"
  "0 < z \<Longrightarrow> voltageZero z \<noteq> voltageHigh z"
  "0 < z \<Longrightarrow> voltageLow z \<noteq> voltageHigh z"
  "0 < z \<Longrightarrow> voltageLow z \<noteq> voltageZero z"
  by (simp_all add: voltageHigh_def voltageZero_def voltageLow_def cellSize_def)

lemma bitWidth_ne0: "0 < z \<Longrightarrow> bitWidth z \<noteq> 0"
  by (simp add: bitWidth_def)

lemma bitX_0: "bitX z 0 = padding"
  by (simp add: bitX_def)

lemma pad_Suc: "padding + bitWidth z = bitX z (Suc 0)"
  by (simp add: bitX_def)

lemma pad_half_ne: "0 < z \<Longrightarrow> padding + bitWidth z / 2 \<noteq> bitX z (Suc 0)"
  by (simp add: bitX_def bitWidth_def)

lemma pad_ne: "0 < z \<Longrightarrow> padding \<noteq> bitX z (Suc 0)"
  by (simp add: bitX_def bitWidth_def)

lemma step:
  assumes "0 < z" and "ctx s = []"
  shows "drawn (pen_at z i s) (ctx (loop_body z (scheme_id sch) i (bit_char b) s))
           = polyline (pen_at z i s) (map (place z i) (fst (rule sch (pol sch s) b)))
       \<and> pen_after (pen_at z i s) (ctx (loop_body z (scheme_id sch) i (bit_char b) s))
           = Some (bitX z (Suc i), lastY (loop_body z (scheme_id sch) i (bit_char b) s))
       \<and> snd (place z i (last (fst (rule sch (pol sch s) b))))
           = (bitX z (Suc i), lastY (loop_body z (scheme_id sch) i (bit_char b) s))
       \<and> fst (rule sch (pol sch s) b) \<noteq> []
       \<and> pol sch (loop_body z (scheme_id sch) i (bit_char b) s) = snd (rule sch (pol sch s) b)"
  using assms
  by (cases sch; cases b; cases "i = 0")
    (simp_all add: loop_body_def draw_defs Let_def pen_at_def pol_def drawn_def has_extent_def
      bit_char_def nrz_rule_def rz_rule_def manchester_rule_def ami_rule_def cmi_rule_def
      place_def volt_def bitX_Suc half_ne half_ne_Suc bitX_ne_Suc volt_distinct
      bitX_def [symmetric] bitWidth_ne0 bitX_0 pad_Suc pad_half_ne pad_ne)

lemma polyline_append:
  "polyline pen (xs @ ys) = polyline pen xs @ polyline (pen_end pen xs) ys"
  by (induction xs arbitrary: pen) auto

lemma pen_end_last: "xs \<noteq> [] \<Longrightarrow> pen_end pen xs = Some (snd (last xs))"
  by (induction xs arbitrary: pen) auto

lemma pen_at_Suc: "pen_at z (Suc i) s = Some (bitX z (Suc i), lastY s)"
  by (simp add: pen_at_def)

lemma pol_ctx: "pol sch (s\<lparr>ctx := c\<rparr>) = pol sch s"
  by (simp add: pol_def)

lemma advances_pair: "advances (a, (x2, y2)) = (fst a \<noteq> x2)"
  by (simp add: advances_def)

lemma loop_polyline:
  assumes z: "0 < z"
  shows "ctx s = [] \<Longrightarrow>
    drawn (pen_at z i s) (ctx (bits_loop z (scheme_id sch) i (map bit_char bits) s))
      = polyline (pen_at z i s) (placed z i (waveform sch (pol sch s) bits))"
proof (induction bits arbitrary: i s)
  case Nil
  then show ?case by (simp add: drawn_def)
next
  case (Cons b bits)
  let ?e = "scheme_id sch"
  let ?s1 = "loop_body z ?e i (bit_char b) s"
  let ?s2 = "?s1\<lparr>ctx := []\<rparr>"
  let ?ps = "fst (rule sch (pol sch s) b)"
  note st = step [OF z Cons.prems, of i sch b]
  have pen: "pen_after (pen_at z i s) (ctx ?s1) = pen_at z (Suc i) ?s2"
    using st by (simp add: pen_at_Suc)
  have pol2: "pol sch ?s2 = snd (rule sch (pol sch s) b)"
    using st by (simp add: pol_ctx)
  have endp: "pen_end (pen_at z i s) (map (place z i) ?ps) = pen_at z (Suc i) ?s2"
    using st by (simp add: pen_end_last last_map pen_at_Suc)
  have "ctx (bits_loop z ?e i (map bit_char (b # bits)) s)
      = ctx ?s1 @ ctx (bits_loop z ?e (Suc i) (map bit_char bits) ?s2)"
    using bits_loop_ctx [of z ?e "Suc i" "map bit_char bits" ?s1] by simp
  then have "drawn (pen_at z i s) (ctx (bits_loop z ?e i (map bit_char (b # bits)) s))
      = drawn (pen_at z i s) (ctx ?s1)
        @ drawn (pen_at z (Suc i) ?s2) (ctx (bits_loop z ?e (Suc i) (map bit_char bits) ?s2))"
    by (simp only: drawn_append pen)
  also have "\<dots> = polyline (pen_at z i s) (map (place z i) ?ps)
        @ polyline (pen_at z (Suc i) ?s2) (placed z (Suc i) (waveform sch (pol sch ?s2) bits))"
    using st Cons.IH [of ?s2 "Suc i"] by simp
  also have "\<dots> = polyline (pen_at z i s) (placed z i (waveform sch (pol sch s) (b # bits)))"
    by (simp add: polyline_append endp pol2)
  finally show ?case .
qed

lemma signal_path_eq:
  "signal_path z binary e = ctx (bits_loop z e 0 binary (initial_state z))"
  by (simp add: signal_path_def drawWaveform_def)

lemma pol_initial: "pol sch (initial_state z) = initial_polarity sch"
  by (cases sch) (simp_all add: pol_def initial_state_def)

lemma drawn_signal_path:
  assumes "0 < z"
  shows "drawn None (signal_path z (map bit_char bits) (scheme_id sch))
    = polyline None (placed z 0 (waveform sch (initial_polarity sch) bits))"
proof -
  have "ctx (initial_state z) = []" by (simp add: initial_state_def)
  from loop_polyline [OF assms this, of 0 sch bits] show ?thesis
    by (simp add: signal_path_eq pen_at_def pol_initial)
qed

lemma strokes_polyline:
  assumes z: "0 < z"
  shows "pen_on z i pen \<Longrightarrow>
    filter advances (polyline pen (placed z i (waveform sch p bits)))
      = placed z i (waveform sch p bits)"
proof (induction bits arbitrary: i pen p)
  case Nil
  show ?case by simp
next
  case (Cons b bits)
  have on: "\<And>y. pen_on z (Suc i) (Some (bitX z (Suc i), y))"
    by (simp add: pen_on_def)
  have IH: "\<forall>y q. filter advances (polyline (Some (bitX z (Suc i), y))
        (placed z (Suc i) (waveform sch q bits))) = placed z (Suc i) (waveform sch q bits)"
    using Cons.IH [OF on] by simp
  from Cons.prems z IH show ?case
    by (cases sch; cases b; cases pen)
      (simp_all add: pen_on_def advances_pair place_def nrz_rule_def rz_rule_def
        manchester_rule_def ami_rule_def cmi_rule_def bitX_Suc half_ne half_ne_Suc bitX_ne_Suc
        bitWidth_ne0)
qed

lemma advances_has_extent: "advances s \<Longrightarrow> has_extent s"
  by (auto simp: advances_def has_extent_def)

lemma strokes_drawn: "strokes c = filter advances (drawn None c)"
proof -
  have "filter advances (filter has_extent xs) = filter advances xs" for xs
    by (induction xs) (auto dest: advances_has_extent)
  then show ?thesis by (simp only: strokes_def drawn_def)
qed

lemma strokes_signal_path:
  assumes "0 < z"
  shows "strokes (signal_path z (map bit_char bits) (scheme_id sch))
    = placed z 0 (waveform sch (initial_polarity sch) bits)"
  by (simp only: strokes_drawn drawn_signal_path [OF assms])
    (simp add: strokes_polyline [OF assms] pen_on_def)

lemma body_flags:
  assumes "ctx s = []"
  shows "\<exists>c cs. ctx (loop_body z (scheme_id sch) i b s) = c # cs
           \<and> startsNewSegment c = (i = 0) \<and> (\<forall>d\<in>set cs. \<not> startsNewSegment d)"
  using assms
  by (cases sch) (simp_all add: loop_body_def draw_defs Let_def)

lemma loop_flags:
  "ctx s = [] \<Longrightarrow> 0 < i \<Longrightarrow>
     \<forall>d\<in>set (ctx (bits_loop z (scheme_id sch) i bs s)). \<not> startsNewSegment d"
proof (induction bs arbitrary: i s)
  case Nil
  then show ?case by simp
next
  case (Cons b bs)
  let ?s1 = "loop_body z (scheme_id sch) i b s"
  from body_flags [OF Cons.prems(1), of z sch i b] Cons.prems(2)
  have a: "\<forall>d\<in>set (ctx ?s1). \<not> startsNewSegment d" by auto
  have b: "\<forall>d\<in>set (ctx (bits_loop z (scheme_id sch) (Suc i) bs (?s1\<lparr>ctx := []\<rparr>))). \<not> startsNewSegment d"
    by (rule Cons.IH) simp_all
  have "ctx (bits_loop z (scheme_id sch) i (b # bs) s)
      = ctx ?s1 @ ctx (bits_loop z (scheme_id sch) (Suc i) bs (?s1\<lparr>ctx := []\<rparr>))"
    using bits_loop_ctx [of z "scheme_id sch" "Suc i" bs ?s1] by simp
  with a b show ?case by auto
qed

lemma flags_replicate:
  "(\<forall>d\<in>set cs. \<not> startsNewSegment d) \<Longrightarrow> map startsNewSegment cs = replicate (length cs) False"
  by (induction cs) auto

lemma path_flags:
  assumes "bs \<noteq> []"
  shows "map startsNewSegment (signal_path z bs (scheme_id sch))
    = True # replicate (length (signal_path z bs (scheme_id sch)) - 1) False"
proof -
  from assms obtain b rest where bs: "bs = b # rest" by (cases bs) auto
  let ?s0 = "initial_state z"
  let ?s1 = "loop_body z (scheme_id sch) 0 b ?s0"
  have e: "ctx ?s0 = []" by (simp add: initial_state_def)
  from body_flags [OF e, of z sch 0 b] obtain c cs where
    c: "ctx ?s1 = c # cs" "startsNewSegment c" "\<forall>d\<in>set cs. \<not> startsNewSegment d" by auto
  have r: "\<forall>d\<in>set (ctx (bits_loop z (scheme_id sch) (Suc 0) rest (?s1\<lparr>ctx := []\<rparr>))). \<not> startsNewSegment d"
    by (rule loop_flags) simp_all
  define tail where "tail = cs @ ctx (bits_loop z (scheme_id sch) (Suc 0) rest (?s1\<lparr>ctx := []\<rparr>))"
  have p: "signal_path z bs (scheme_id sch) = c # tail"
    using bits_loop_ctx [of z "scheme_id sch" "Suc 0" rest ?s1] c(1)
    by (simp add: signal_path_eq bs tail_def)
  have "\<forall>d\<in>set tail. \<not> startsNewSegment d"
    using c(3) r by (auto simp: tail_def)
  from flags_replicate [OF this] p c(2) show ?thesis by simp
qed

lemma length_waveform: "length (waveform sch p bits) = length bits"
  by (induction bits arbitrary: p) auto

lemma waveform_nrz: "waveform NRZ_L p bits = map nrz_rule bits"
  by (induction bits arbitrary: p) auto

lemma waveform_rz: "waveform RZ p bits = map rz_rule bits"
  by (induction bits arbitrary: p) auto

lemma waveform_manchester: "waveform Manchester p bits = map manchester_rule bits"
  by (induction bits arbitrary: p) auto

lemma waveform_cmi_zero:
  "k < length bits \<Longrightarrow> \<not> bits ! k \<Longrightarrow>
     waveform CMI p bits ! k = [(0, 1 / 2, ZERO), (1 / 2, 1, HIGH)]"
proof (induction bits arbitrary: p k)
  case Nil
  then show ?case by simp
next
  case (Cons b bits)
  then show ?case by (cases k) (auto simp: cmi_rule_def)
qed

lemma mid_join:
  "k < length W \<Longrightarrow> W ! k = [pc1, pc2] \<Longrightarrow>
   snd (place z (i + k) pc1) \<noteq> fst (place z (i + k) pc2) \<Longrightarrow>
   (snd (place z (i + k) pc1), fst (place z (i + k) pc2)) \<in> set (polyline pen (placed z i W))"
proof (induction W arbitrary: i k pen)
  case Nil
  then show ?case by simp
next
  case (Cons ps W)
  show ?case
  proof (cases k)
    case 0
    with Cons.prems show ?thesis by simp
  next
    case (Suc j)
    with Cons.prems have "(snd (place z (Suc i + j) pc1), fst (place z (Suc i + j) pc2))
        \<in> set (polyline (pen_end pen (map (place z i) ps)) (placed z (Suc i) W))"
      by (intro Cons.IH) simp_all
    with Suc show ?thesis by (simp add: polyline_append)
  qed
qed

lemma boundary_join:
  "Suc k < length W \<Longrightarrow> W ! k \<noteq> [] \<Longrightarrow> W ! Suc k \<noteq> [] \<Longrightarrow>
   snd (place z (i + k) (last (W ! k))) \<noteq> fst (place z (Suc (i + k)) (hd (W ! Suc k))) \<Longrightarrow>
   (snd (place z (i + k) (last (W ! k))), fst (place z (Suc (i + k)) (hd (W ! Suc k))))
     \<in> set (polyline pen (placed z i W))"
proof (induction W arbitrary: i k pen)
  case Nil
  then show ?case by simp
next
  case (Cons ps W)
  show ?case
  proof (cases k)
    case 0
    with Cons.prems obtain qs W' where W: "W = qs # W'" by (cases W) auto
    with 0 Cons.prems obtain q qs' where qs: "qs = q # qs'" by (cases qs) auto
    from 0 Cons.prems W qs show ?thesis
      by (simp add: polyline_append pen_end_last last_map)
  next
    case (Suc j)
    with Cons.prems have "(snd (place z (Suc i + j) (last (W ! j))),
        fst (place z (Suc (Suc i + j)) (hd (W ! Suc j))))
        \<in> set (polyline (pen_end pen (map (place z i) ps)) (placed z (Suc i) W))"
      by (intro Cons.IH) simp_all
    with Suc show ?thesis by (simp add: polyline_append)
  qed
qed

lemma drawn_has_extent: "s \<in> set (drawn pen c) \<Longrightarrow> fst s \<noteq> snd s"
  by (simp add: drawn_def has_extent_def)

lemma Array_from_elements:
  "ch \<in> set (Array_from str) \<Longrightarrow>
     (\<exists>u. ch = [u]) \<or> (\<exists>u v. ch = [u, v] \<and> is_high_surrogate u \<and> is_low_surrogate v)"
  by (induction str rule: Array_from.induct) (auto split: if_splits)

lemma wide_unit: "255 < code \<Longrightarrow> charToBinary (code # rest) = toString2 code \<and> 8 < length (toString2 code)"
  using toString2_length [of 8 code] by (simp add: charToBinary_def padStart_def)

lemma wide_element:
  assumes "ch \<in> set (Array_from str)" and "codePointAt0 ch = Some cp" and "255 < cp"
  shows "charToBinary ch = toString2 (hd ch) \<and> 8 < length (charToBinary ch)"
proof -
  from Array_from_elements [OF assms(1)] assms(2,3) obtain u rest
    where "ch = u # rest" "255 < u"
    by (auto simp: codePointAt0_def is_high_surrogate_def)
  with wide_unit [of u rest] show ?thesis by simp
qed

lemma length_charToBinary: "8 \<le> length (charToBinary ch)"
  by (cases ch) (simp_all add: charToBinary_def padStart_def)

lemma length_concat_ge:
  "8 * length chs \<le> length (concat (map charToBinary chs))"
proof (induction chs)
  case Nil
  show ?case by simp
next
  case (Cons c chs)
  with length_charToBinary [of c] show ?case by simp
qed

lemma length_concat_gt:
  "c \<in> set chs \<Longrightarrow> 8 < length (charToBinary c) \<Longrightarrow>
     8 * length chs < length (concat (map charToBinary chs))"
proof (induction chs)
  case Nil
  then show ?case by simp
next
  case (Cons d chs)
  show ?case
  proof (cases "c = d")
    case True
    with Cons.prems length_concat_ge [of chs] show ?thesis by simp
  next
    case False
    with Cons have "8 * length chs < length (concat (map charToBinary chs))" by simp
    with length_charToBinary [of d] show ?thesis by simp
  qed
qed

section \<open>Text to bits: the properties\<close>

text \<open>
  Claim C6. For every ASCII text \<open>T\<close> (every code unit below 128), \<open>stringToBinary T\<close>
  has exactly 8 characters per character of \<open>T\<close>; it is the concatenation, in input
  order, of the 8-bit, most-significant-bit-first, zero-padded binary code points; and
  regrouping it into groups of 8 and reading each group as a binary number gives back the
  code points of \<open>T\<close>. (The empty text is covered as well.)
\<close>

theorem encode_round_trip:
  assumes "ascii T"
  shows "length (stringToBinary T) = 8 * length T
    \<and> stringToBinary T = concat (map byte_msb_first T)
    \<and> decode (stringToBinary T) = T"
  using assms
  by (simp add: stringToBinary_ascii length_concat_bytes decode_def decode_groups_bytes)

theorem encode_round_trip_witness:
  "ascii [72, 105] \<and> length (stringToBinary [72, 105]) = 8 * length [72, 105 :: nat]
    \<and> stringToBinary [72, 105] = ''0100100001101001''
    \<and> decode (stringToBinary [72, 105]) = [72, 105]"
proof -
  have a: "ascii [72, 105]" by (simp add: ascii_def)
  note r = encode_round_trip [OF a]
  have e: "stringToBinary [72, 105] = ''0100100001101001''"
    using r by (simp add: byte_msb_first_def bit_char_def)
  from a r e show ?thesis by blast
qed

text \<open>
  Claim C10. A character (an element of \<open>Array.from(str)\<close>) whose code point exceeds
  255 is converted by \<open>charToBinary\<close> to the binary digits of its first code unit, with
  no padding and no truncation: more than 8 digits. A text that contains such a character
  is therefore encoded to more than 8 characters per input character.
\<close>

theorem wide_code_point_not_truncated:
  assumes "ch \<in> set (Array_from str)" and "codePointAt0 ch = Some cp" and "255 < cp"
  shows "charToBinary ch = toString2 (hd ch)
    \<and> 8 < length (charToBinary ch)
    \<and> 8 * length (Array_from str) < length (stringToBinary str)"
proof -
  note w = wide_element [OF assms]
  then have "8 < length (charToBinary ch)" by (rule conjunct2)
  from length_concat_gt [OF assms(1) this] w show ?thesis
    unfolding stringToBinary_def by blast
qed

theorem wide_code_point_not_truncated_witness:
  "[256] \<in> set (Array_from [65, 256]) \<and> codePointAt0 [256] = Some 256 \<and> (255::nat) < 256
    \<and> charToBinary [256] = ''100000000''
    \<and> 8 * length (Array_from [65, 256]) < length (stringToBinary [65, 256])"
proof -
  have a: "[256] \<in> set (Array_from [65, 256])" by (simp add: is_high_surrogate_def)
  have b: "codePointAt0 [256] = Some 256" by (simp add: codePointAt0_def)
  have c: "(255::nat) < 256" by simp
  note r = wide_code_point_not_truncated [OF a b c]
  have "toString2 256 = ''100000000''" by code_simp
  with a b c r show ?thesis by simp
qed

lemma bits_0101101: "''0101101'' = map bit_char [False, True, False, True, True, False, True]"
  by (simp add: bit_char_def)

lemma bits_1101: "''1101'' = map bit_char [True, True, False, True]"
  by (simp add: bit_char_def)

lemma bits_01000001:
  "''01000001'' = map bit_char [False, True, False, False, False, False, False, True]"
  by (simp add: bit_char_def)

lemma place_half_low:
  "place z k (0, 1 / 2, l) = ((bitX z k, volt z l), (bitX z k + bitWidth z / 2, volt z l))"
  by (simp add: place_def)

lemma place_half_high:
  "place z k (1 / 2, 1, l) = ((bitX z k + bitWidth z / 2, volt z l), (bitX z (Suc k), volt z l))"
  by (simp add: place_def bitX_Suc)

lemma place_full:
  "place z k (0, 1, l) = ((bitX z k, volt z l), (bitX z (Suc k), volt z l))"
  by (simp add: place_def bitX_Suc)

lemma volt_inject: "0 < z \<Longrightarrow> (volt z l = volt z m) = (l = m)"
  by (cases l; cases m) (simp_all add: volt_def volt_distinct)

lemma waveform_nth:
  "k < length bits \<Longrightarrow> \<exists>q. waveform sch p bits ! k = fst (rule sch q (bits ! k))"
proof (induction bits arbitrary: p k)
  case Nil
  then show ?case by simp
next
  case (Cons b bits)
  show ?case
  proof (cases k)
    case 0
    then show ?thesis by auto
  next
    case (Suc j)
    with Cons.prems Cons.IH [of j "snd (rule sch p b)"] show ?thesis by simp
  qed
qed

lemma rule_shape:
  "fst (rule sch q b) \<noteq> []
   \<and> fst (hd (fst (rule sch q b))) = 0
   \<and> fst (snd (last (fst (rule sch q b)))) = 1"
  by (cases sch; cases b)
    (simp_all add: nrz_rule_def rz_rule_def manchester_rule_def ami_rule_def cmi_rule_def)

lemma place_start: "fst (fst (place z i pc)) = bitX z i + fst pc * bitWidth z"
  by (cases pc) (simp add: place_def)

lemma place_end: "fst (snd (place z i pc)) = bitX z i + fst (snd pc) * bitWidth z"
  by (cases pc) (simp add: place_def)

lemma loop_body_not1:
  "e \<noteq> ''ami'' \<Longrightarrow>
     loop_body z e i c s = loop_body z e i (if c = CHR ''1'' then CHR ''1'' else CHR ''0'') s"
  by (simp add: loop_body_def draw_defs Let_def)

lemma loop_body_not0:
  "loop_body z ''ami'' i c s
     = loop_body z ''ami'' i (if c = CHR ''0'' then CHR ''0'' else CHR ''1'') s"
  by (simp add: loop_body_def draw_defs Let_def)

lemma bits_loop_not1:
  "e \<noteq> ''ami'' \<Longrightarrow>
     bits_loop z e i bs s
       = bits_loop z e i (map (\<lambda>c. if c = CHR ''1'' then CHR ''1'' else CHR ''0'') bs) s"
proof (induction bs arbitrary: i s)
  case Nil
  show ?case by simp
next
  case (Cons c bs)
  from Cons.prems have "loop_body z e i c s
      = loop_body z e i (if c = CHR ''1'' then CHR ''1'' else CHR ''0'') s"
    by (rule loop_body_not1)
  with Cons show ?case by simp
qed

lemma bits_loop_not0:
  "bits_loop z ''ami'' i bs s
     = bits_loop z ''ami'' i (map (\<lambda>c. if c = CHR ''0'' then CHR ''0'' else CHR ''1'') bs) s"
proof (induction bs arbitrary: i s)
  case Nil
  show ?case by simp
next
  case (Cons c bs)
  have "loop_body z ''ami'' i c s
      = loop_body z ''ami'' i (if c = CHR ''0'' then CHR ''0'' else CHR ''1'') s"
    by (rule loop_body_not0)
  with Cons show ?case by simp
qed

lemma loop_body_unknown:
  "e \<notin> {''nrz'', ''rz'', ''manchester'', ''ami'', ''cmi''} \<Longrightarrow> loop_body z e i c s = s"
  by (simp add: loop_body_def)

lemma bits_loop_unknown:
  "e \<notin> {''nrz'', ''rz'', ''manchester'', ''ami'', ''cmi''} \<Longrightarrow> bits_loop z e i bs s = s"
proof (induction bs arbitrary: i)
  case Nil
  show ?case by simp
next
  case (Cons c bs)
  from Cons.prems have "loop_body z e i c s = s" by (rule loop_body_unknown)
  with Cons show ?case by simp
qed

section \<open>The signal path: the properties\<close>

text \<open>
  Claim C1 (AMI, initial polarity +1). For every bit sequence the strokes of the signal
  path are, bit by bit, one flat piece over the whole bit: at ZERO for a 0-bit, which
  leaves the polarity as it is, and for a 1-bit at HIGH when the polarity is +1 and at LOW
  otherwise, after which the polarity changes sign. \<open>drawAMI\<close> returns exactly this level
  and polarity. The bits 0101101 give the levels ZERO, HIGH, ZERO, LOW, HIGH, ZERO, LOW.
\<close>

theorem ami_alternating_levels:
  assumes "0 < zoom"
  shows "strokes (signal_path zoom (map bit_char bits) ''ami'') = placed zoom 0 (waveform AMI 1 bits)
    \<and> waveform AMI p (False # bs) = [(0, 1, ZERO)] # waveform AMI p bs
    \<and> waveform AMI p (True # bs) = [(0, 1, if p = 1 then HIGH else LOW)] # waveform AMI (- p) bs
    \<and> snd (drawAMI c x w (bit_char b) hi ze lo y idx q)
        = (if b then (if q = 1 then hi else lo, - q) else (ze, q))
    \<and> strokes (signal_path zoom ''0101101'' ''ami'')
        = placed zoom 0 [[(0, 1, ZERO)], [(0, 1, HIGH)], [(0, 1, ZERO)], [(0, 1, LOW)],
            [(0, 1, HIGH)], [(0, 1, ZERO)], [(0, 1, LOW)]]"
proof -
  have g: "strokes (signal_path zoom (map bit_char bs') ''ami'') = placed zoom 0 (waveform AMI 1 bs')"
    for bs'
    using strokes_signal_path [OF assms, of bs' AMI] by simp
  have r: "snd (drawAMI c x w (bit_char b) hi ze lo y idx q)
        = (if b then (if q = 1 then hi else lo, - q) else (ze, q))"
    by (simp add: drawAMI_def bit_char_def Let_def)
  have s: "strokes (signal_path zoom ''0101101'' ''ami'')
        = placed zoom 0 [[(0, 1, ZERO)], [(0, 1, HIGH)], [(0, 1, ZERO)], [(0, 1, LOW)],
            [(0, 1, HIGH)], [(0, 1, ZERO)], [(0, 1, LOW)]]"
    unfolding bits_0101101 g by (simp add: ami_rule_def)
  show ?thesis
    by (intro conjI g r s) (simp_all add: ami_rule_def)
qed

theorem ami_alternating_levels_witness:
  "(0::rat) < 1 \<and> strokes (signal_path 1 ''0101101'' ''ami'')
     = [((80, 120), (120, 120)), ((120, 80), (160, 80)), ((160, 120), (200, 120)),
        ((200, 160), (240, 160)), ((240, 80), (280, 80)), ((280, 120), (320, 120)),
        ((320, 160), (360, 160))]"
proof -
  have z: "(0::rat) < 1" by simp
  from ami_alternating_levels [OF z] have "strokes (signal_path 1 ''0101101'' ''ami'')
        = placed 1 0 [[(0, 1, ZERO)], [(0, 1, HIGH)], [(0, 1, ZERO)], [(0, 1, LOW)],
            [(0, 1, HIGH)], [(0, 1, ZERO)], [(0, 1, LOW)]]"
    by blast
  then show ?thesis
    by (simp add: place_def bitX_def volt_def bitWidth_def padding_def voltageHigh_def
        voltageZero_def voltageLow_def topPadding_def cellSize_def)
qed

text \<open>
  Claim C2 (CMI, initial polarity -1). A 1-bit is one flat piece over the whole bit, on the
  HIGH rail when the polarity is +1 and on the ZERO rail otherwise, and the polarity then
  changes sign; a 0-bit is at ZERO on the first half and at HIGH on the second half, with
  the ZERO-to-HIGH transition drawn at the middle of the bit whatever the polarity, which
  it leaves unchanged. The bits 1101 give: ZERO rail (polarity becomes +1), HIGH (polarity
  becomes -1), ZERO then HIGH with the transition at 0.5, ZERO rail.
\<close>

theorem cmi_coded_mark_inversion:
  assumes "0 < zoom"
  shows "strokes (signal_path zoom (map bit_char bits) ''cmi'') = placed zoom 0 (waveform CMI (- 1) bits)
    \<and> waveform CMI p (True # bs) = [(0, 1, if p = 1 then HIGH else ZERO)] # waveform CMI (- p) bs
    \<and> waveform CMI p (False # bs) = [(0, 1 / 2, ZERO), (1 / 2, 1, HIGH)] # waveform CMI p bs
    \<and> snd (snd (drawCMI c x w (bit_char b) hi lo y idx q)) = (if b then - q else q)
    \<and> (k < length bits \<and> \<not> bits ! k \<longrightarrow>
          ((bitX zoom k + bitWidth zoom / 2, voltageZero zoom),
           (bitX zoom k + bitWidth zoom / 2, voltageHigh zoom))
            \<in> set (drawn None (signal_path zoom (map bit_char bits) ''cmi'')))
    \<and> strokes (signal_path zoom ''1101'' ''cmi'')
        = placed zoom 0 [[(0, 1, ZERO)], [(0, 1, HIGH)], [(0, 1 / 2, ZERO), (1 / 2, 1, HIGH)],
            [(0, 1, ZERO)]]
    \<and> cmiPolarity (bits_loop zoom ''cmi'' 0 ''1'' (initial_state zoom)) = 1
    \<and> cmiPolarity (bits_loop zoom ''cmi'' 0 ''11'' (initial_state zoom)) = - 1"
proof -
  have g: "strokes (signal_path zoom (map bit_char bs') ''cmi'') = placed zoom 0 (waveform CMI (- 1) bs')"
    for bs'
    using strokes_signal_path [OF assms, of bs' CMI] by simp
  have r: "snd (snd (drawCMI c x w (bit_char b) hi lo y idx q)) = (if b then - q else q)"
    by (simp add: drawCMI_def bit_char_def Let_def)
  have m: "k < length bits \<and> \<not> bits ! k \<longrightarrow>
          ((bitX zoom k + bitWidth zoom / 2, voltageZero zoom),
           (bitX zoom k + bitWidth zoom / 2, voltageHigh zoom))
            \<in> set (drawn None (signal_path zoom (map bit_char bits) ''cmi''))"
  proof
    assume k: "k < length bits \<and> \<not> bits ! k"
    let ?W = "waveform CMI (- 1) bits"
    have "(snd (place zoom (0 + k) (0, 1 / 2, ZERO)), fst (place zoom (0 + k) (1 / 2, 1, HIGH)))
        \<in> set (polyline None (placed zoom 0 ?W))"
      using k assms
      by (intro mid_join)
        (simp_all add: length_waveform waveform_cmi_zero place_half_low place_half_high
          volt_inject)
    then show "((bitX zoom k + bitWidth zoom / 2, voltageZero zoom),
           (bitX zoom k + bitWidth zoom / 2, voltageHigh zoom))
            \<in> set (drawn None (signal_path zoom (map bit_char bits) ''cmi''))"
      using drawn_signal_path [OF assms, of bits CMI]
      by (simp add: place_half_low place_half_high volt_def)
  qed
  have s: "strokes (signal_path zoom ''1101'' ''cmi'')
        = placed zoom 0 [[(0, 1, ZERO)], [(0, 1, HIGH)], [(0, 1 / 2, ZERO), (1 / 2, 1, HIGH)],
            [(0, 1, ZERO)]]"
    unfolding bits_1101 g by (simp add: cmi_rule_def)
  have p1: "cmiPolarity (bits_loop zoom ''cmi'' 0 ''1'' (initial_state zoom)) = 1"
    by (simp add: loop_body_def drawCMI_def Let_def initial_state_def)
  have p2: "cmiPolarity (bits_loop zoom ''cmi'' 0 ''11'' (initial_state zoom)) = - 1"
    by (simp add: loop_body_def drawCMI_def Let_def initial_state_def)
  show ?thesis
    by (intro conjI g r m s p1 p2) (simp_all add: cmi_rule_def)
qed

theorem cmi_coded_mark_inversion_witness:
  "(0::rat) < 1
   \<and> strokes (signal_path 1 ''1101'' ''cmi'')
     = [((80, 120), (120, 120)), ((120, 80), (160, 80)), ((160, 120), (180, 120)),
        ((180, 80), (200, 80)), ((200, 120), (240, 120))]
   \<and> (2::nat) < length [True, True, False, True] \<and> \<not> [True, True, False, True] ! 2
   \<and> ((180, 120), (180, 80)) \<in> set (drawn None (signal_path 1 ''1101'' ''cmi''))"
proof -
  have z: "(0::rat) < 1" by simp
  note t = cmi_coded_mark_inversion [OF z, of "[True, True, False, True]" _ _ _ _ _ _ _ _ _ _ 2]
  have k: "(2::nat) < length [True, True, False, True] \<and> \<not> [True, True, False, True] ! 2"
    by simp
  from t have "strokes (signal_path 1 ''1101'' ''cmi'')
        = placed 1 0 [[(0, 1, ZERO)], [(0, 1, HIGH)], [(0, 1 / 2, ZERO), (1 / 2, 1, HIGH)],
            [(0, 1, ZERO)]]"
    by blast
  then have a: "strokes (signal_path 1 ''1101'' ''cmi'')
     = [((80, 120), (120, 120)), ((120, 80), (160, 80)), ((160, 120), (180, 120)),
        ((180, 80), (200, 80)), ((200, 120), (240, 120))]"
    by (simp add: place_def bitX_def volt_def bitWidth_def padding_def voltageHigh_def
        voltageZero_def voltageLow_def topPadding_def cellSize_def)
  from t k have "((bitX 1 2 + bitWidth 1 / 2, voltageZero 1), (bitX 1 2 + bitWidth 1 / 2, voltageHigh 1))
      \<in> set (drawn None (signal_path 1 (map bit_char [True, True, False, True]) ''cmi''))"
    by blast
  then have b: "((180, 120), (180, 80)) \<in> set (drawn None (signal_path 1 ''1101'' ''cmi''))"
    by (simp add: bits_1101 bitX_def bitWidth_def padding_def voltageHigh_def
        voltageZero_def topPadding_def cellSize_def)
  from z a k b show ?thesis by blast
qed

text \<open>
  Claim C3 (Manchester). Every bit, whatever its neighbours, is at LOW on the first half
  and HIGH on the second half when it is 1, and at HIGH then LOW when it is 0, and the
  transition between the two halves is drawn at the middle of the bit.
\<close>

theorem manchester_mid_bit_transition:
  assumes "0 < zoom"
  shows "strokes (signal_path zoom (map bit_char bits) ''manchester'')
        = placed zoom 0 (map manchester_rule bits)
    \<and> manchester_rule True = [(0, 1 / 2, LOW), (1 / 2, 1, HIGH)]
    \<and> manchester_rule False = [(0, 1 / 2, HIGH), (1 / 2, 1, LOW)]
    \<and> (k < length bits \<longrightarrow>
          ((bitX zoom k + bitWidth zoom / 2, volt zoom (if bits ! k then LOW else HIGH)),
           (bitX zoom k + bitWidth zoom / 2, volt zoom (if bits ! k then HIGH else LOW)))
            \<in> set (drawn None (signal_path zoom (map bit_char bits) ''manchester'')))"
proof -
  have g: "strokes (signal_path zoom (map bit_char bits) ''manchester'')
        = placed zoom 0 (map manchester_rule bits)"
    using strokes_signal_path [OF assms, of bits Manchester] by (simp add: waveform_manchester)
  have m: "k < length bits \<longrightarrow>
          ((bitX zoom k + bitWidth zoom / 2, volt zoom (if bits ! k then LOW else HIGH)),
           (bitX zoom k + bitWidth zoom / 2, volt zoom (if bits ! k then HIGH else LOW)))
            \<in> set (drawn None (signal_path zoom (map bit_char bits) ''manchester''))"
  proof
    assume k: "k < length bits"
    let ?a = "(0, 1 / 2, if bits ! k then LOW else HIGH) :: piece"
    let ?b = "(1 / 2, 1, if bits ! k then HIGH else LOW) :: piece"
    have "(snd (place zoom (0 + k) ?a), fst (place zoom (0 + k) ?b))
        \<in> set (polyline None (placed zoom 0 (map manchester_rule bits)))"
      using k assms
      by (intro mid_join)
        (simp_all add: manchester_rule_def place_half_low place_half_high volt_inject)
    then show "((bitX zoom k + bitWidth zoom / 2, volt zoom (if bits ! k then LOW else HIGH)),
           (bitX zoom k + bitWidth zoom / 2, volt zoom (if bits ! k then HIGH else LOW)))
            \<in> set (drawn None (signal_path zoom (map bit_char bits) ''manchester''))"
      using drawn_signal_path [OF assms, of bits Manchester]
      by (simp add: place_half_low place_half_high waveform_manchester)
  qed
  show ?thesis
    by (intro conjI g m) (simp_all add: manchester_rule_def)
qed

theorem manchester_mid_bit_transition_witness:
  "(0::rat) < 1 \<and> (1::nat) < length [True, False]
   \<and> strokes (signal_path 1 ''10'' ''manchester'')
     = [((80, 160), (100, 160)), ((100, 80), (120, 80)), ((120, 80), (140, 80)),
        ((140, 160), (160, 160))]
   \<and> ((140, 80), (140, 160)) \<in> set (drawn None (signal_path 1 ''10'' ''manchester''))"
proof -
  have z: "(0::rat) < 1" by simp
  have k: "(1::nat) < length [True, False]" by simp
  have e: "''10'' = map bit_char [True, False]" by (simp add: bit_char_def)
  note t = manchester_mid_bit_transition [OF z, of "[True, False]" 1]
  from t have a: "strokes (signal_path 1 ''10'' ''manchester'')
     = [((80, 160), (100, 160)), ((100, 80), (120, 80)), ((120, 80), (140, 80)),
        ((140, 160), (160, 160))]"
    by (simp add: e manchester_rule_def place_def bitX_def volt_def bitWidth_def padding_def
        voltageHigh_def voltageZero_def voltageLow_def topPadding_def cellSize_def)
  from t k have b: "((140, 80), (140, 160)) \<in> set (drawn None (signal_path 1 ''10'' ''manchester''))"
    by (simp add: e bitX_def volt_def bitWidth_def padding_def
        voltageHigh_def voltageZero_def voltageLow_def topPadding_def cellSize_def)
  from z k a b show ?thesis by blast
qed

text \<open>
  Claim C4 (RZ). Every bit is at HIGH (bit 1) or LOW (bit 0) on the first half and at ZERO
  on the second half, and after every bit the level carried to the next bit is ZERO,
  whatever the state before the bit was.
\<close>

theorem rz_returns_to_zero:
  assumes "0 < zoom"
  shows "strokes (signal_path zoom (map bit_char bits) ''rz'') = placed zoom 0 (map rz_rule bits)
    \<and> rz_rule b = [(0, 1 / 2, if b then HIGH else LOW), (1 / 2, 1, ZERO)]
    \<and> lastY (loop_body zoom ''rz'' i c s) = voltageZero zoom"
proof -
  have g: "strokes (signal_path zoom (map bit_char bits) ''rz'') = placed zoom 0 (map rz_rule bits)"
    using strokes_signal_path [OF assms, of bits RZ] by (simp add: waveform_rz)
  have l: "lastY (loop_body zoom ''rz'' i c s) = voltageZero zoom"
    by (simp add: loop_body_def)
  show ?thesis
    by (intro conjI g l) (simp add: rz_rule_def)
qed

theorem rz_returns_to_zero_witness:
  "(0::rat) < 1
   \<and> strokes (signal_path 1 ''10'' ''rz'')
     = [((80, 80), (100, 80)), ((100, 120), (120, 120)), ((120, 160), (140, 160)),
        ((140, 120), (160, 120))]"
proof -
  have z: "(0::rat) < 1" by simp
  have e: "''10'' = map bit_char [True, False]" by (simp add: bit_char_def)
  from rz_returns_to_zero [OF z, of "[True, False]"] show ?thesis
    by (simp add: e rz_rule_def place_def bitX_def volt_def bitWidth_def padding_def
        voltageHigh_def voltageZero_def voltageLow_def topPadding_def cellSize_def)
qed

text \<open>
  Claim C5 (NRZ-L), amended. Every bit is one flat piece over the whole bit, at HIGH for a
  1-bit and at ZERO for a 0-bit; the segments drawn are these pieces joined, in one line,
  by a vertical segment at the start of a bit exactly when its level differs from the
  level the previous bit ended on. The text A (bits 01000001) gives a path of 15 vertices
  (not 8): a pen-up vertex at index 0 and 14 pen-down vertices, whose eight flat pieces
  have the levels ZERO, HIGH, ZERO, ZERO, ZERO, ZERO, ZERO, HIGH.
\<close>

theorem nrz_level:
  assumes "0 < zoom"
  shows "drawn None (signal_path zoom (map bit_char bits) ''nrz'')
        = polyline None (placed zoom 0 (map nrz_rule bits))
    \<and> strokes (signal_path zoom (map bit_char bits) ''nrz'') = placed zoom 0 (map nrz_rule bits)
    \<and> nrz_rule b = [(0, 1, if b then HIGH else ZERO)]
    \<and> (Suc k < length bits \<longrightarrow>
         (((bitX zoom (Suc k), volt zoom (if bits ! k then HIGH else ZERO)),
           (bitX zoom (Suc k), volt zoom (if bits ! Suc k then HIGH else ZERO)))
            \<in> set (drawn None (signal_path zoom (map bit_char bits) ''nrz'')))
         = (bits ! k \<noteq> bits ! Suc k))
    \<and> stringToBinary [65] = ''01000001''
    \<and> length (signal_path zoom ''01000001'' ''nrz'') = 15
    \<and> map startsNewSegment (signal_path zoom ''01000001'' ''nrz'') = True # replicate 14 False
    \<and> strokes (signal_path zoom ''01000001'' ''nrz'')
        = placed zoom 0 [[(0, 1, ZERO)], [(0, 1, HIGH)], [(0, 1, ZERO)], [(0, 1, ZERO)],
            [(0, 1, ZERO)], [(0, 1, ZERO)], [(0, 1, ZERO)], [(0, 1, HIGH)]]"
proof -
  let ?path = "signal_path zoom (map bit_char bits) ''nrz''"
  have d: "drawn None ?path = polyline None (placed zoom 0 (map nrz_rule bits))"
    using drawn_signal_path [OF assms, of bits NRZ_L] by (simp add: waveform_nrz)
  have g: "strokes (signal_path zoom (map bit_char bs') ''nrz'') = placed zoom 0 (map nrz_rule bs')"
    for bs'
    using strokes_signal_path [OF assms, of bs' NRZ_L] by (simp add: waveform_nrz)
  have t: "Suc k < length bits \<longrightarrow>
         (((bitX zoom (Suc k), volt zoom (if bits ! k then HIGH else ZERO)),
           (bitX zoom (Suc k), volt zoom (if bits ! Suc k then HIGH else ZERO)))
            \<in> set (drawn None ?path))
         = (bits ! k \<noteq> bits ! Suc k)"
  proof
    assume k: "Suc k < length bits"
    let ?e = "(bitX zoom (Suc k), volt zoom (if bits ! k then HIGH else ZERO))"
    let ?s = "(bitX zoom (Suc k), volt zoom (if bits ! Suc k then HIGH else ZERO))"
    show "((?e, ?s) \<in> set (drawn None ?path)) = (bits ! k \<noteq> bits ! Suc k)"
    proof
      assume "(?e, ?s) \<in> set (drawn None ?path)"
      from drawn_has_extent [OF this] show "bits ! k \<noteq> bits ! Suc k"
        by (auto split: if_splits)
    next
      assume ne: "bits ! k \<noteq> bits ! Suc k"
      let ?W = "map nrz_rule bits"
      have "(snd (place zoom (0 + k) (last (?W ! k))), fst (place zoom (Suc (0 + k)) (hd (?W ! Suc k))))
          \<in> set (polyline None (placed zoom 0 ?W))"
        using k ne assms
        by (intro boundary_join) (auto simp: nrz_rule_def place_full volt_inject)
      with k show "(?e, ?s) \<in> set (drawn None ?path)"
        by (simp add: d nrz_rule_def place_full)
    qed
  qed
  have "toString2 65 = ''1000001''" by code_simp
  then have a: "stringToBinary [65] = ''01000001''"
    by (simp add: stringToBinary_def charToBinary_def padStart_def)
  have n: "length (signal_path zoom ''01000001'' ''nrz'') = 15"
    using assms
    by (simp add: signal_path_eq initial_state_def loop_body_def drawNRZ_def moveTo_def
        lineTo_def Let_def volt_distinct)
  have f: "map startsNewSegment (signal_path zoom ''01000001'' ''nrz'') = True # replicate 14 False"
    using path_flags [of "''01000001''" zoom NRZ_L] n by simp
  have s: "strokes (signal_path zoom ''01000001'' ''nrz'')
        = placed zoom 0 [[(0, 1, ZERO)], [(0, 1, HIGH)], [(0, 1, ZERO)], [(0, 1, ZERO)],
            [(0, 1, ZERO)], [(0, 1, ZERO)], [(0, 1, ZERO)], [(0, 1, HIGH)]]"
    unfolding bits_01000001 g by (simp add: nrz_rule_def)
  show ?thesis
    by (intro conjI d g t a n f s) (simp add: nrz_rule_def)
qed

theorem nrz_level_witness:
  "(0::rat) < 1 \<and> Suc 0 < length [False, True]
   \<and> ((120, 120), (120, 80)) \<in> set (drawn None (signal_path 1 ''01'' ''nrz''))
   \<and> length (signal_path 1 (stringToBinary [65]) ''nrz'') = 15"
proof -
  have z: "(0::rat) < 1" by simp
  have k: "Suc 0 < length [False, True]" by simp
  have e: "''01'' = map bit_char [False, True]" by (simp add: bit_char_def)
  note t = nrz_level [OF z, of "[False, True]" _ 0]
  note t4 = t [THEN conjunct2, THEN conjunct2, THEN conjunct2, THEN conjunct1]
  from t4 k have a: "((120, 120), (120, 80)) \<in> set (drawn None (signal_path 1 ''01'' ''nrz''))"
    by (simp add: bit_char_def bitX_def volt_def bitWidth_def padding_def
        voltageHigh_def voltageZero_def voltageLow_def topPadding_def cellSize_def)
  from t have b: "length (signal_path 1 (stringToBinary [65]) ''nrz'') = 15"
    by simp
  from z k a b show ?thesis by blast
qed

text \<open>
  Claim C5 as stated fails on the vertex count: the path drawn for the text A does not
  have 8 vertices.
\<close>

theorem nrz_letter_A_is_not_8_vertices:
  "length (signal_path 1 (stringToBinary [65]) ''nrz'') \<noteq> 8"
proof -
  have "toString2 65 = ''1000001''" by code_simp
  then have "stringToBinary [65] = ''01000001''"
    by (simp add: stringToBinary_def charToBinary_def padStart_def)
  then show ?thesis
    by (simp add: signal_path_eq initial_state_def loop_body_def drawNRZ_def moveTo_def
        lineTo_def Let_def voltageHigh_def voltageZero_def topPadding_def cellSize_def)
qed

text \<open>
  Claim C7. For each of the five schemes and every non-empty bit sequence the path is one
  connected line: only its first vertex starts a new subpath; the segments drawn are the
  flat pieces of the bits in order, each joined to the next by a segment exactly when the
  pen is not already at the start of the next piece; and at every bit boundary the end of
  the previous bit and the start of the next bit lie on the boundary, and the vertical
  segment between them is drawn exactly when the two levels differ.
\<close>

theorem single_connected_polyline:
  assumes "0 < zoom" and "bits \<noteq> []"
  shows "map startsNewSegment (signal_path zoom (map bit_char bits) (scheme_id sch))
        = True # replicate (length (signal_path zoom (map bit_char bits) (scheme_id sch)) - 1) False
    \<and> drawn None (signal_path zoom (map bit_char bits) (scheme_id sch))
        = polyline None (placed zoom 0 (waveform sch (initial_polarity sch) bits))
    \<and> (Suc k < length bits \<longrightarrow>
         fst (snd (place zoom k (last (waveform sch (initial_polarity sch) bits ! k))))
           = bitX zoom (Suc k)
         \<and> fst (fst (place zoom (Suc k) (hd (waveform sch (initial_polarity sch) bits ! Suc k))))
           = bitX zoom (Suc k)
         \<and> (((snd (place zoom k (last (waveform sch (initial_polarity sch) bits ! k))),
               fst (place zoom (Suc k) (hd (waveform sch (initial_polarity sch) bits ! Suc k))))
              \<in> set (drawn None (signal_path zoom (map bit_char bits) (scheme_id sch))))
            = (snd (place zoom k (last (waveform sch (initial_polarity sch) bits ! k)))
                 \<noteq> fst (place zoom (Suc k) (hd (waveform sch (initial_polarity sch) bits ! Suc k))))))"
proof -
  let ?path = "signal_path zoom (map bit_char bits) (scheme_id sch)"
  let ?W = "waveform sch (initial_polarity sch) bits"
  have f: "map startsNewSegment ?path = True # replicate (length ?path - 1) False"
    using assms(2) by (intro path_flags) simp
  have d: "drawn None ?path = polyline None (placed zoom 0 ?W)"
    by (rule drawn_signal_path [OF assms(1)])
  have b: "Suc k < length bits \<longrightarrow>
         fst (snd (place zoom k (last (?W ! k)))) = bitX zoom (Suc k)
         \<and> fst (fst (place zoom (Suc k) (hd (?W ! Suc k)))) = bitX zoom (Suc k)
         \<and> (((snd (place zoom k (last (?W ! k))), fst (place zoom (Suc k) (hd (?W ! Suc k))))
              \<in> set (drawn None ?path))
            = (snd (place zoom k (last (?W ! k))) \<noteq> fst (place zoom (Suc k) (hd (?W ! Suc k)))))"
  proof
    assume k: "Suc k < length bits"
    let ?e = "snd (place zoom k (last (?W ! k)))"
    let ?s = "fst (place zoom (Suc k) (hd (?W ! Suc k)))"
    from k waveform_nth [of k bits sch "initial_polarity sch"]
    obtain q where q: "?W ! k = fst (rule sch q (bits ! k))" by auto
    from k waveform_nth [of "Suc k" bits sch "initial_polarity sch"]
    obtain r where r: "?W ! Suc k = fst (rule sch r (bits ! Suc k))" by auto
    note sq = rule_shape [of sch q "bits ! k"] and sr = rule_shape [of sch r "bits ! Suc k"]
    have x1: "fst ?e = bitX zoom (Suc k)"
      using sq by (simp add: q place_end bitX_Suc)
    have x2: "fst ?s = bitX zoom (Suc k)"
      using sr by (simp add: r place_start)
    have "((?e, ?s) \<in> set (drawn None ?path)) = (?e \<noteq> ?s)"
    proof
      assume "(?e, ?s) \<in> set (drawn None ?path)"
      from drawn_has_extent [OF this] show "?e \<noteq> ?s" by simp
    next
      assume ne: "?e \<noteq> ?s"
      have "(snd (place zoom (0 + k) (last (?W ! k))),
             fst (place zoom (Suc (0 + k)) (hd (?W ! Suc k))))
          \<in> set (polyline None (placed zoom 0 ?W))"
        using k ne sq sr
        by (intro boundary_join) (simp_all add: length_waveform q r)
      then show "(?e, ?s) \<in> set (drawn None ?path)"
        by (simp add: d)
    qed
    with x1 x2 show "fst ?e = bitX zoom (Suc k) \<and> fst ?s = bitX zoom (Suc k)
        \<and> (((?e, ?s) \<in> set (drawn None ?path)) = (?e \<noteq> ?s))"
      by blast
  qed
  from f d b show ?thesis by blast
qed

theorem single_connected_polyline_witness:
  "(0::rat) < 1 \<and> [False, True, True] \<noteq> [] \<and> Suc 0 < length [False, True, True]
   \<and> signal_path 1 ''011'' ''ami''
      = [MoveTo 80 120, LineTo 120 120, LineTo 120 120, LineTo 120 80, LineTo 160 80,
         LineTo 160 80, LineTo 160 160, LineTo 200 160]
   \<and> map startsNewSegment (signal_path 1 ''011'' ''ami'')
      = [True, False, False, False, False, False, False, False]
   \<and> drawn None (signal_path 1 ''011'' ''ami'')
      = [((80, 120), (120, 120)), ((120, 120), (120, 80)), ((120, 80), (160, 80)),
         ((160, 80), (160, 160)), ((160, 160), (200, 160))]
   \<and> ((120, 120), (120, 80)) \<in> set (drawn None (signal_path 1 ''011'' ''ami''))"
proof -
  have z: "(0::rat) < 1" by simp
  have n: "[False, True, True] \<noteq> []" by simp
  have k: "Suc 0 < length [False, True, True]" by simp
  have p: "signal_path 1 ''011'' ''ami''
      = [MoveTo 80 120, LineTo 120 120, LineTo 120 120, LineTo 120 80, LineTo 160 80,
         LineTo 160 80, LineTo 160 160, LineTo 200 160]"
    by (simp add: signal_path_eq initial_state_def loop_body_def drawAMI_def moveTo_def
        lineTo_def Let_def voltageHigh_def voltageZero_def voltageLow_def topPadding_def
        cellSize_def bitWidth_def padding_def)
  note t = single_connected_polyline [OF z n, of AMI 0]
  have e: "map bit_char [False, True, True] = ''011''" by (simp add: bit_char_def)
  from t have f: "map startsNewSegment (signal_path 1 ''011'' ''ami'')
      = True # replicate (length (signal_path 1 ''011'' ''ami'') - 1) False"
    unfolding e by simp
  from t have "drawn None (signal_path 1 ''011'' ''ami'')
      = polyline None (placed 1 0 (waveform AMI (initial_polarity AMI) [False, True, True]))"
    unfolding e by simp
  then have d: "drawn None (signal_path 1 ''011'' ''ami'')
      = [((80, 120), (120, 120)), ((120, 120), (120, 80)), ((120, 80), (160, 80)),
         ((160, 80), (160, 160)), ((160, 160), (200, 160))]"
    by (simp add: ami_rule_def place_def bitX_def volt_def bitWidth_def padding_def
        voltageHigh_def voltageZero_def voltageLow_def topPadding_def cellSize_def)
  from f have f': "map startsNewSegment (signal_path 1 ''011'' ''ami'')
      = [True, False, False, False, False, False, False, False]"
    by (simp add: p)
  note t3 = t [THEN conjunct2, THEN conjunct2, unfolded e]
  from t3 k have b: "((120, 120), (120, 80)) \<in> set (drawn None (signal_path 1 ''011'' ''ami''))"
    by (simp add: ami_rule_def place_def bitX_def volt_def bitWidth_def padding_def
        voltageHigh_def voltageZero_def voltageLow_def topPadding_def cellSize_def)
  from z n k p f' d b show ?thesis by blast
qed

text \<open>
  Claim C8, amended. \<open>drawWaveform\<close> never fails: on the empty bit string it returns with
  an empty signal path, and a character other than 0 and 1 is not rejected; NRZ-L, RZ,
  Manchester and CMI draw every character other than 1 as a 0-bit, and AMI draws every
  character other than 0 as a 1-bit.
\<close>

theorem drawWaveform_never_fails:
  "drawWaveform zoom [] encoding = Inr []
   \<and> drawWaveform zoom binary encoding \<noteq> Inl err
   \<and> (encoding \<noteq> ''ami'' \<longrightarrow>
        drawWaveform zoom binary encoding
          = drawWaveform zoom (map (\<lambda>c. if c = CHR ''1'' then CHR ''1'' else CHR ''0'') binary)
              encoding)
   \<and> (encoding = ''ami'' \<longrightarrow>
        drawWaveform zoom binary encoding
          = drawWaveform zoom (map (\<lambda>c. if c = CHR ''0'' then CHR ''0'' else CHR ''1'') binary)
              encoding)"
proof -
  have a: "drawWaveform zoom [] encoding = Inr []"
    by (simp add: drawWaveform_def initial_state_def)
  have b: "drawWaveform zoom binary encoding \<noteq> Inl err"
    by (simp add: drawWaveform_def)
  have c: "encoding \<noteq> ''ami'' \<longrightarrow>
        drawWaveform zoom binary encoding
          = drawWaveform zoom (map (\<lambda>c. if c = CHR ''1'' then CHR ''1'' else CHR ''0'') binary)
              encoding"
    using bits_loop_not1 [of encoding zoom 0 binary "initial_state zoom"]
    by (simp add: drawWaveform_def)
  have d: "encoding = ''ami'' \<longrightarrow>
        drawWaveform zoom binary encoding
          = drawWaveform zoom (map (\<lambda>c. if c = CHR ''0'' then CHR ''0'' else CHR ''1'') binary)
              encoding"
    using bits_loop_not0 [of zoom 0 binary "initial_state zoom"]
    by (simp add: drawWaveform_def)
  from a b c d show ?thesis by blast
qed

theorem drawWaveform_never_fails_witness:
  "''nrz'' \<noteq> ''ami'' \<and> drawWaveform 1 ''1x'' ''nrz'' = drawWaveform 1 ''10'' ''nrz''
   \<and> drawWaveform 1 ''1x'' ''ami'' = drawWaveform 1 ''11'' ''ami''"
proof -
  have n: "''nrz'' \<noteq> ''ami''" by simp
  from drawWaveform_never_fails [of 1 "''nrz''" "''1x''"] n
  have a: "drawWaveform 1 ''1x'' ''nrz'' = drawWaveform 1 ''10'' ''nrz''" by simp
  from drawWaveform_never_fails [of 1 "''ami''" "''1x''"]
  have b: "drawWaveform 1 ''1x'' ''ami'' = drawWaveform 1 ''11'' ''ami''" by simp
  from n a b show ?thesis by blast
qed

text \<open>
  Claim C8 as stated fails: neither the empty bit string nor a character outside 0 and 1
  makes \<open>drawWaveform\<close> fail.
\<close>

theorem drawWaveform_accepts_empty_and_bad_bits:
  "drawWaveform 1 [] ''nrz'' = Inr [] \<and> drawWaveform 1 [] ''nrz'' \<noteq> Inl InvalidInput
   \<and> drawWaveform 1 ''2'' ''ami'' = Inr [MoveTo 80 80, LineTo 120 80]
   \<and> drawWaveform 1 ''2'' ''ami'' \<noteq> Inl InvalidInput"
  by (simp add: drawWaveform_def initial_state_def loop_body_def drawAMI_def moveTo_def
      lineTo_def Let_def voltageHigh_def voltageZero_def voltageLow_def topPadding_def
      cellSize_def bitWidth_def padding_def)

text \<open>
  Claim C9, amended. With an encoding that is none of the five the \<^verbatim>\<open>switch\<close> matches
  no case: \<open>drawWaveform\<close> does not fail, it returns with an empty signal path; no scheme
  is substituted, since every one of the five schemes draws a non-empty path for a
  non-empty bit string.
\<close>

theorem unknown_scheme_draws_nothing:
  assumes "encoding \<notin> {''nrz'', ''rz'', ''manchester'', ''ami'', ''cmi''}"
  shows "drawWaveform zoom binary encoding = Inr []
    \<and> (binary \<noteq> [] \<longrightarrow> drawWaveform zoom binary encoding \<noteq> drawWaveform zoom binary (scheme_id sch))"
proof -
  have a: "drawWaveform zoom binary encoding = Inr []"
    by (simp add: drawWaveform_def bits_loop_unknown [OF assms] initial_state_def)
  have b: "binary \<noteq> [] \<longrightarrow> drawWaveform zoom binary encoding \<noteq> drawWaveform zoom binary (scheme_id sch)"
  proof
    assume "binary \<noteq> []"
    from path_flags [OF this, of zoom sch] have "signal_path zoom binary (scheme_id sch) \<noteq> []"
      by auto
    then have "drawWaveform zoom binary (scheme_id sch) \<noteq> Inr []"
      by (simp add: signal_path_def drawWaveform_def)
    with a show "drawWaveform zoom binary encoding \<noteq> drawWaveform zoom binary (scheme_id sch)"
      by simp
  qed
  from a b show ?thesis by blast
qed

theorem unknown_scheme_draws_nothing_witness:
  "''nrzi'' \<notin> {''nrz'', ''rz'', ''manchester'', ''ami'', ''cmi''} \<and> ''01'' \<noteq> []
   \<and> drawWaveform 1 ''01'' ''nrzi'' = Inr []
   \<and> drawWaveform 1 ''01'' ''nrzi'' \<noteq> drawWaveform 1 ''01'' ''nrz''"
proof -
  have u: "''nrzi'' \<notin> {''nrz'', ''rz'', ''manchester'', ''ami'', ''cmi''}" by simp
  have n: "''01'' \<noteq> []" by simp
  note t = unknown_scheme_draws_nothing [OF u, of 1 "''01''" NRZ_L, unfolded scheme_id.simps]
  from t have a: "drawWaveform 1 ''01'' ''nrzi'' = Inr []" by blast
  from t n have b: "drawWaveform 1 ''01'' ''nrzi'' \<noteq> drawWaveform 1 ''01'' ''nrz''" by blast
  from u n a b show ?thesis by blast
qed

text \<open>
  Claim C9 as stated fails: an unrecognised encoding is not rejected.
\<close>

theorem unknown_scheme_is_not_rejected:
  "drawWaveform 1 ''01'' ''nrzi'' = Inr []
   \<and> drawWaveform 1 ''01'' ''nrzi'' \<noteq> Inl UnsupportedScheme"
  by (simp add: drawWaveform_def initial_state_def loop_body_def)

end
